theory Spec2Isabelle
  imports Main
begin

section \<open>Strings\<close>

text \<open>
  A Python \<^verbatim>\<open>str\<close> is a sequence of Unicode code points. Several aliases of the
  boolean argument are Cyrillic, so a character is its code point (a natural number) and
  a string is a list of them. \<open>ascii\<close> reads an ASCII literal.
\<close>

type_synonym cp = nat
type_synonym ustr = "cp list"

definition ascii :: "string \<Rightarrow> ustr" where
  "ascii s = map of_char s"

text \<open>
  \<^verbatim>\<open>str.lstrip()\<close> without an argument removes leading whitespace, that is the
  characters for which \<^verbatim>\<open>str.isspace\<close> holds.
\<close>

definition isspace :: "cp \<Rightarrow> bool" where
  "isspace c = ((9 \<le> c \<and> c \<le> 13) \<or> (28 \<le> c \<and> c \<le> 32) \<or> c = 133 \<or> c = 160
     \<or> c = 5760 \<or> (8192 \<le> c \<and> c \<le> 8202) \<or> c = 8232 \<or> c = 8233 \<or> c = 8239
     \<or> c = 8287 \<or> c = 12288)"

definition lstrip :: "ustr \<Rightarrow> ustr" where
  "lstrip s = dropWhile isspace s"

text \<open>\<^verbatim>\<open>sep.join(parts)\<close>\<close>

fun join :: "ustr \<Rightarrow> ustr list \<Rightarrow> ustr" where
  "join sep [] = []"
| "join sep [x] = x"
| "join sep (x # y # ys) = x @ sep @ join sep (y # ys)"

section \<open>The regular expressions the cutters use\<close>

text \<open>
  The cutters match with Python's \<^verbatim>\<open>re\<close> module, a backtracking matcher: an
  alternation tries its branches from left to right, a quantifier is greedy, and
  \<^verbatim>\<open>Pattern.match\<close> reports the first way to match at the start of the string.
  The patterns of this repository need literals (with and without
  \<^verbatim>\<open>re.IGNORECASE\<close>), the dot (with and without \<^verbatim>\<open>re.DOTALL\<close>), a character
  set, \<^verbatim>\<open>\d\<close>, sequence, alternation, \<^verbatim>\<open>?\<close>, and \<^verbatim>\<open>*\<close> and \<^verbatim>\<open>+\<close>
  on a single character. The flags are resolved when the pattern is compiled, as the
  \<^verbatim>\<open>re\<close> compiler does, so a literal under \<^verbatim>\<open>re.IGNORECASE\<close> is its own atom.

  Two tables of the Unicode database are not part of the model. \<open>py_lower\<close> folds
  the case of the Latin letters A-Z and of the Cyrillic letters U+0400-U+042F, and
  \<open>Digit\<close> holds the ASCII digits. On strings and patterns whose characters are ASCII
  or in U+0400-U+045F (the aliases of the code and every input used below) this is what
  \<^verbatim>\<open>re.IGNORECASE\<close> and \<^verbatim>\<open>\d\<close> do. Beyond these characters Python matches
  more (further cased letters, further decimal digits), so the statements below that
  range over all inputs of a pattern with \<^verbatim>\<open>\d\<close> are stated for ASCII inputs
  (\<open>is_ascii\<close>), and the boolean argument is evaluated on given inputs of these ranges.
\<close>

datatype atom = Lit cp | LitIgn cp | AnyChar | NotNewline | Cls "cp list" | Digit

datatype rx = Eps | Atom atom | Seq rx rx | Alt rx rx | Opt rx | Star atom | Plus atom

definition py_lower :: "cp \<Rightarrow> cp" where
  "py_lower c = (if 65 \<le> c \<and> c \<le> 90 then c + 32
                 else if 1040 \<le> c \<and> c \<le> 1071 then c + 32
                 else if 1024 \<le> c \<and> c \<le> 1039 then c + 80
                 else c)"

fun atom_ok :: "atom \<Rightarrow> cp \<Rightarrow> bool" where
  "atom_ok (Lit p) c = (c = p)"
| "atom_ok (LitIgn p) c = (py_lower c = py_lower p)"
| "atom_ok AnyChar c = True"
| "atom_ok NotNewline c = (c \<noteq> 10)"
| "atom_ok (Cls cs) c = List.member cs c"
| "atom_ok Digit c = (48 \<le> c \<and> c \<le> 57)"

text \<open>
  \<open>ends r s\<close> lists what is left of \<open>s\<close> after each way \<open>r\<close> can match at its
  start, in the order the backtracking matcher tries them.
\<close>

fun ends :: "rx \<Rightarrow> ustr \<Rightarrow> ustr list" where
  "ends Eps s = [s]"
| "ends (Atom a) s = (case s of [] \<Rightarrow> [] | c # cs \<Rightarrow> if atom_ok a c then [cs] else [])"
| "ends (Seq r1 r2) s = concat (map (ends r2) (ends r1 s))"
| "ends (Alt r1 r2) s = ends r1 s @ ends r2 s"
| "ends (Opt r) s = ends r s @ [s]"
| "ends (Star a) s = map (\<lambda>k. drop k s) (rev [0..<Suc (length (takeWhile (atom_ok a) s))])"
| "ends (Plus a) s = map (\<lambda>k. drop k s) (rev [1..<Suc (length (takeWhile (atom_ok a) s))])"

text \<open>
  \<^verbatim>\<open>regex.match(string)\<close>: \<open>None\<close>, or the match, given as the matched text
  (\<^verbatim>\<open>m.group(0)\<close>) and the rest of the string (\<^verbatim>\<open>string[m.end():]\<close>).
\<close>

definition re_match :: "rx \<Rightarrow> ustr \<Rightarrow> (ustr \<times> ustr) option" where
  "re_match regex s =
     (case ends regex s of
        [] \<Rightarrow> None
      | rest # _ \<Rightarrow> Some (take (length s - length rest) s, rest))"

subsection \<open>Compiling an alternation of literals\<close>

text \<open>
  The boolean argument builds its patterns from strings at run time, so the pattern text
  is parsed here. The fragment covered is \<^verbatim>\<open>(?:a1|a2|...|an)\<close> where each branch
  is a run of ordinary characters and of backslash escapes of characters that are not
  ASCII letters or digits; \<open>re_compile_ignorecase\<close> is \<open>None\<close> for a pattern outside
  this fragment (where Python raises \<^verbatim>\<open>re.error\<close> or builds a pattern this model
  does not cover).
\<close>

definition special_chars :: "cp list" where
  "special_chars = ascii ''.[{()*+?^$''"

definition ascii_alnum :: "cp \<Rightarrow> bool" where
  "ascii_alnum c = ((48 \<le> c \<and> c \<le> 57) \<or> (65 \<le> c \<and> c \<le> 90) \<or> (97 \<le> c \<and> c \<le> 122))"

fun cons_first :: "cp \<Rightarrow> ustr list \<Rightarrow> ustr list" where
  "cons_first c [] = [[c]]"
| "cons_first c (a # as) = (c # a) # as"

fun parse_alts :: "ustr \<Rightarrow> ustr list option" where
  "parse_alts [] = Some [[]]"
| "parse_alts (c # cs) =
     (if c = 124 then map_option (Cons []) (parse_alts cs)
      else if c = 92 then
        (case cs of
           [] \<Rightarrow> None
         | d # ds \<Rightarrow> if ascii_alnum d then None else map_option (cons_first d) (parse_alts ds))
      else if List.member special_chars c then None
      else map_option (cons_first c) (parse_alts cs))"

fun seq_of :: "ustr \<Rightarrow> rx" where
  "seq_of [] = Eps"
| "seq_of (c # cs) = Seq (Atom (LitIgn c)) (seq_of cs)"

fun alt_of :: "rx list \<Rightarrow> rx" where
  "alt_of [] = Eps"
| "alt_of [r] = r"
| "alt_of (r # rs) = Alt r (alt_of rs)"

definition re_compile_ignorecase :: "ustr \<Rightarrow> rx option" where
  "re_compile_ignorecase p =
     (if 4 \<le> length p \<and> take 3 p = ascii ''(?:'' \<and> last p = 41
      then map_option (\<lambda>alts. alt_of (map seq_of alts)) (parse_alts (butlast (drop 3 p)))
      else None)"

section \<open>Text arguments\<close>

text \<open>
  \<^verbatim>\<open>cut_part\<close> returns a pair: the value, or the sentinel
  \<^verbatim>\<open>UnmatchedArgument\<close>, and a string.
\<close>

datatype 'a cut = Matched 'a | UnmatchedArgument

type_synonym 'a text_argument = "ustr \<Rightarrow> 'a cut \<times> ustr"

text \<open>
  Modelled from the spec: \<^verbatim>\<open>TextArgument.cut_part_lite\<close> (the base class
  \<^verbatim>\<open>vkquick.base.text_argument\<close> is not among the sources). A cutter consumes a
  prefix of the string and yields a value plus the unconsumed remainder, or signals
  unmatched and returns the string it was given. The value is what the factory makes of
  the match; the factory defaults to the identity.
\<close>

definition cut_part_lite :: "rx \<Rightarrow> ustr \<Rightarrow> (ustr \<Rightarrow> 'a) \<Rightarrow> 'a cut \<times> ustr" where
  "cut_part_lite regex arguments_string factory =
     (case re_match regex arguments_string of
        Some (matched, new_arguments_string) \<Rightarrow> (Matched (factory matched), new_arguments_string)
      | None \<Rightarrow> (UnmatchedArgument, arguments_string))"

subsection \<open>Bool\<close>

record Bool =
  true_regex :: rx
  false_regex :: rx

definition true_values :: "ustr list" where
  "true_values =
     [ascii ''true'', ascii ''1'', ascii ''yes'', ascii ''y'',
      [1076, 1072], [1076], [1080, 1089, 1090, 1080, 1085, 1072],
      ascii [CHR 0x5C, CHR ''+''],
      [1087, 1088, 1072, 1074, 1076, 1072],
      ascii ''t'', ascii ''on'', [1074, 1082, 1083], ascii ''enable'']"

definition false_values :: "ustr list" where
  "false_values =
     [ascii ''false'', ascii ''0'', ascii ''no'', ascii ''n'',
      [1085, 1077, 1090], [1085], [1083, 1086, 1078, 1100],
      ascii ''-'',
      [1085, 1077, 1087, 1088, 1072, 1074, 1076, 1072],
      ascii ''f'', ascii ''off'', [1074, 1099, 1082, 1083], ascii ''disable'']"

definition Bool_init :: "ustr list \<Rightarrow> ustr list \<Rightarrow> Bool option" where
  "Bool_init true_extension false_extension =
     (case re_compile_ignorecase
             (ascii ''(?:'' @ join (ascii ''|'') (true_values @ true_extension) @ ascii '')'') of
        None \<Rightarrow> None
      | Some tr \<Rightarrow>
          (case re_compile_ignorecase
                  (ascii ''(?:'' @ join (ascii ''|'') (false_values @ false_extension) @ ascii '')'') of
             None \<Rightarrow> None
           | Some fr \<Rightarrow> Some \<lparr>true_regex = tr, false_regex = fr\<rparr>))"

definition Bool_cut_part :: "Bool \<Rightarrow> bool text_argument" where
  "Bool_cut_part self arguments_string =
     (case cut_part_lite (true_regex self) arguments_string id of
        (Matched v, parsed_string) \<Rightarrow> (Matched True, parsed_string)
      | (UnmatchedArgument, _) \<Rightarrow>
          (case cut_part_lite (false_regex self) arguments_string id of
             (Matched v, parsed_string) \<Rightarrow> (Matched False, parsed_string)
           | (UnmatchedArgument, parsed_string) \<Rightarrow> (UnmatchedArgument, parsed_string)))"

subsection \<open>List\<close>

text \<open>\<open>max_length = None\<close> stands for the default \<^verbatim>\<open>...\<close> (no upper bound).\<close>

record 'a List =
  element :: "'a text_argument"
  min_length :: int
  max_length :: "int option"

text \<open>
  The \<^verbatim>\<open>while\<close> loop of \<^verbatim>\<open>List.cut_part\<close>. With no upper bound and an element
  that matches without consuming, the loop never ends: the result is then \<open>None\<close>.
\<close>

partial_function (option) List_loop ::
  "'a List \<Rightarrow> 'a list \<Rightarrow> ustr \<Rightarrow> ('a list cut \<times> ustr) option" where
  "List_loop self vals remaining_string =
     (if max_length self = None \<or> int (length vals) < the (max_length self) then
        (case element self (lstrip remaining_string) of
           (UnmatchedArgument, remaining_string') \<Rightarrow>
             if int (length vals) > min_length self
             then Some (Matched vals, remaining_string')
             else Some (UnmatchedArgument, remaining_string')
         | (Matched chunk, remaining_string') \<Rightarrow>
             List_loop self (vals @ [chunk]) remaining_string')
      else Some (Matched vals, remaining_string))"

definition List_cut_part :: "'a List \<Rightarrow> ustr \<Rightarrow> ('a list cut \<times> ustr) option" where
  "List_cut_part self arguments_string = List_loop self [] arguments_string"

subsection \<open>SimplifiedTextArgument\<close>

text \<open>
  The constructor takes \<^verbatim>\<open>re_pattern\<close> and its body is \<^verbatim>\<open>...\<close>: nothing is
  stored, so an instance has no attribute. \<^verbatim>\<open>cut_part\<close> compiles \<^verbatim>\<open>.+\<close> with
  \<^verbatim>\<open>re.DOTALL\<close> and extracts \<^verbatim>\<open>group(0)\<close>, the matched text.
\<close>

datatype SimplifiedTextArgument = SimplifiedTextArgument

definition SimplifiedTextArgument_init :: "rx \<Rightarrow> SimplifiedTextArgument" where
  "SimplifiedTextArgument_init re_pattern = SimplifiedTextArgument"

definition SimplifiedTextArgument_cut_part :: "SimplifiedTextArgument \<Rightarrow> ustr text_argument" where
  "SimplifiedTextArgument_cut_part self arguments_string =
     cut_part_lite (Plus AnyChar) arguments_string (\<lambda>x. x)"

subsection \<open>The numeric cutter\<close>

text \<open>
  Modelled from the spec: \<^verbatim>\<open>cut_part_via_regex\<close> and
  \<^verbatim>\<open>CutterParsingResponse\<close> (the module \<^verbatim>\<open>text_cutters.base\<close> is not among the
  sources). \<^verbatim>\<open>cut_part\<close> yields the matched text and the unconsumed remainder, or
  unmatched; unmatched is an outcome, not an exception.
\<close>

definition cut_part_via_regex :: "rx \<Rightarrow> ustr \<Rightarrow> ustr cut \<times> ustr" where
  "cut_part_via_regex regex arguments_string =
     (case re_match regex arguments_string of
        Some (parsed_part, new_arguments_string) \<Rightarrow> (Matched parsed_part, new_arguments_string)
      | None \<Rightarrow> (UnmatchedArgument, arguments_string))"

text \<open>
  The class \<^verbatim>\<open>Integer\<close> of \<^verbatim>\<open>float_.py\<close>. Its pattern is
  \<^verbatim>\<open>[+|-]?\d*(?:\.\d+)\<close>: the set holds the three characters plus, bar and minus,
  and the group has no quantifier. \<^verbatim>\<open>cast_to_type\<close> is \<^verbatim>\<open>float(parsed_part)\<close>
  and is not modelled.
\<close>

definition Integer_pattern :: rx where
  "Integer_pattern =
     Seq (Opt (Atom (Cls (ascii ''+|-''))))
       (Seq (Star Digit) (Seq (Atom (Lit 46)) (Plus Digit)))"

definition Integer_cut_part :: "ustr \<Rightarrow> ustr cut \<times> ustr" where
  "Integer_cut_part arguments_string = cut_part_via_regex Integer_pattern arguments_string"

section \<open>Passing an event through the commands\<close>

text \<open>
  \<^verbatim>\<open>Bot.pass_event_trough_commands\<close> creates one task per command, in the order of
  \<^verbatim>\<open>self.commands\<close>, and awaits \<^verbatim>\<open>asyncio.gather\<close>. The class
  \<^verbatim>\<open>Command\<close> is not among the sources, so a command is given by its
  \<^verbatim>\<open>handle_event\<close>: from the event and the shared box to a status, or to the
  exception it raises. An exception is an instance of \<^verbatim>\<open>Exception\<close> or another
  \<^verbatim>\<open>BaseException\<close>; \<^verbatim>\<open>except Exception\<close> catches the first kind only.

  The bot is built with a \<^verbatim>\<open>debug_filter\<close>, a \<^verbatim>\<open>debugger\<close> class and signal
  handlers. Each is code supplied to the bot and may raise: \<open>debug_filter\<close> gives the
  decision or the exception; \<open>debugger\<close> stands for building the debugger from the
  event and the statuses and calling \<^verbatim>\<open>render()\<close> (the default
  \<^verbatim>\<open>ColoredDebugger\<close> asks \<^verbatim>\<open>os.get_terminal_size()\<close>, which raises
  \<^verbatim>\<open>OSError\<close> without a terminal) and gives the message or the exception;
  \<open>call_signal\<close> stands for \<^verbatim>\<open>self.call_signal.via_name\<close> of the signal
  \<^verbatim>\<open>POST_EVENT_HANDLING\<close>.
\<close>

datatype exn = Exception string | BaseException string

datatype 'st outcome = Returned 'st | Raised exn

record ('ev, 'sb, 'st) Bot =
  commands :: "('ev \<Rightarrow> 'sb \<Rightarrow> 'st outcome) list"
  shared_box :: 'sb
  release :: bool
  debug_filter :: "'ev \<Rightarrow> exn + bool"
  debugger :: "'ev \<Rightarrow> 'st list \<Rightarrow> exn + string"
  call_signal :: "'ev \<Rightarrow> 'st list \<Rightarrow> exn + unit"

text \<open>
  \<^verbatim>\<open>asyncio.gather\<close> with \<^verbatim>\<open>return_exceptions=False\<close>. The tasks run
  concurrently; what the scheduler decides is the order in which they complete, given
  here as the list of the task indices in completion order. A task that completes with
  a value has it stored in its own slot; the first task that completes with an exception
  makes \<^verbatim>\<open>gather\<close> raise it at once; when every slot is filled, the slots are the
  result. While a slot is empty and nothing was raised, \<^verbatim>\<open>gather\<close> is pending.
\<close>

datatype 'a gathered = Pending | Failed exn | Done "'a list"

fun gather :: "'a outcome list \<Rightarrow> 'a option list \<Rightarrow> nat list \<Rightarrow> 'a gathered" where
  "gather tasks results [] =
     (case those results of None \<Rightarrow> Pending | Some vs \<Rightarrow> Done vs)"
| "gather tasks results (i # completions) =
     (if i < length tasks then
        (case tasks ! i of
           Raised e \<Rightarrow> Failed e
         | Returned v \<Rightarrow> gather tasks (results[i := Some v]) completions)
      else gather tasks results completions)"

text \<open>
  What the coroutines do besides running the commands: \<^verbatim>\<open>traceback.print_exc()\<close>,
  the printing of the event and of the debug message (after clearing the console), and
  the call of the signal with its arguments. A coroutine returns \<^verbatim>\<open>None\<close>, so its
  result is the list of these effects (\<open>Inr\<close>), or the exception that escapes it
  (\<open>Inl\<close>).
\<close>

datatype ('ev, 'st) effect =
    PrintExc exn
  | ShowDebugMessage 'ev string
  | PostEventHandlingSignal 'ev "'st list"

definition show_debug_info ::
  "('ev, 'sb, 'st) Bot \<Rightarrow> 'ev \<Rightarrow> 'st list \<Rightarrow> exn + ('ev, 'st) effect list" where
  "show_debug_info self event handling_info =
     (case debug_filter self event of
        Inl e \<Rightarrow> Inl e
      | Inr passed \<Rightarrow>
          if passed then
            (case debugger self event handling_info of
               Inl e \<Rightarrow> Inl e
             | Inr debug_message \<Rightarrow> Inr [ShowDebugMessage event debug_message])
          else Inr [])"

definition call_post_event_handling_signal ::
  "('ev, 'sb, 'st) Bot \<Rightarrow> 'ev \<Rightarrow> 'st list \<Rightarrow> exn + ('ev, 'st) effect list" where
  "call_post_event_handling_signal self event handling_info =
     (case call_signal self event handling_info of
        Inl e \<Rightarrow> Inl e
      | Inr _ \<Rightarrow> Inr [PostEventHandlingSignal event handling_info])"

text \<open>
  \<^verbatim>\<open>pass_event_trough_commands\<close>: only \<^verbatim>\<open>gather\<close> is inside the
  \<^verbatim>\<open>try\<close>; an exception of \<^verbatim>\<open>show_debug_info\<close> or of the signal, both
  in the \<^verbatim>\<open>else\<close> branch, escapes. The result is \<open>None\<close> while
  \<^verbatim>\<open>gather\<close> is pending.
\<close>

definition pass_event_trough_commands ::
  "('ev, 'sb, 'st) Bot \<Rightarrow> 'ev \<Rightarrow> nat list \<Rightarrow> (exn + ('ev, 'st) effect list) option" where
  "pass_event_trough_commands self event completions =
     (let tasks = map (\<lambda>command. command event (shared_box self)) (commands self) in
      case gather tasks (replicate (length tasks) None) completions of
        Pending \<Rightarrow> None
      | Failed e \<Rightarrow>
          (case e of
             Exception _ \<Rightarrow> Some (Inr [PrintExc e])
           | BaseException _ \<Rightarrow> Some (Inl e))
      | Done handling_info \<Rightarrow>
          (case (if \<not> release self then show_debug_info self event handling_info else Inr []) of
             Inl e \<Rightarrow> Some (Inl e)
           | Inr shown \<Rightarrow>
               (case call_post_event_handling_signal self event handling_info of
                  Inl e \<Rightarrow> Some (Inl e)
                | Inr signalled \<Rightarrow> Some (Inr (shown @ signalled)))))"

section \<open>Notions used in the statements\<close>

text \<open>The alias \<open>a\<close> matches at the start of \<open>s\<close>, letter case ignored.\<close>

definition ci_prefix :: "ustr \<Rightarrow> ustr \<Rightarrow> bool" where
  "ci_prefix a s = (length a \<le> length s \<and> map py_lower (take (length a) s) = map py_lower a)"

text \<open>
  An alias is in the fragment when it parses on its own. \<open>alts_of\<close> lists the
  branches that a list of aliases contributes to the pattern, in order.
\<close>

definition in_fragment :: "ustr \<Rightarrow> bool" where
  "in_fragment v = (parse_alts v \<noteq> None)"

definition alts_of :: "ustr list \<Rightarrow> ustr list" where
  "alts_of vs = concat (map (\<lambda>v. case parse_alts v of None \<Rightarrow> [] | Some A \<Rightarrow> A) vs)"

text \<open>The first branch, in list order, that matches at the start of \<open>s\<close>.\<close>

definition first_alt :: "ustr list \<Rightarrow> ustr \<Rightarrow> ustr option" where
  "first_alt alts s = find (\<lambda>a. ci_prefix a s) alts"

text \<open>
  In the words of the spec: the longest branch that matches at the start of \<open>s\<close>
  (the earliest one among several of that length).
\<close>

definition spec_longest_alt :: "ustr list \<Rightarrow> ustr \<Rightarrow> ustr option" where
  "spec_longest_alt alts s =
     (case filter (\<lambda>a. ci_prefix a s) alts of
        [] \<Rightarrow> None
      | a # as \<Rightarrow> Some (fold (\<lambda>b m. if length m < length b then b else m) as a))"

text \<open>
  \<^verbatim>\<open>Bool(true_extension=..., false_extension=...).cut_part(arguments_string)\<close>:
  construction, then the cut.
\<close>

definition Bool_init_cut_part ::
  "ustr list \<Rightarrow> ustr list \<Rightarrow> ustr \<Rightarrow> (bool cut \<times> ustr) option" where
  "Bool_init_cut_part true_extension false_extension arguments_string =
     (case Bool_init true_extension false_extension of
        None \<Rightarrow> None
      | Some self \<Rightarrow> Some (Bool_cut_part self arguments_string))"

text \<open>
  An input holds \<open>k\<close> well-formed elements separated by whitespace:
  \<open>cut_elements e k s\<close> cuts them one after the other, each after stripping the
  leading whitespace, and gives their values and the rest of the input. The input has
  exactly \<open>k\<close> of them when the element does not match the stripped rest.
\<close>

fun cut_elements :: "'a text_argument \<Rightarrow> nat \<Rightarrow> ustr \<Rightarrow> ('a list \<times> ustr) option" where
  "cut_elements e 0 s = Some ([], s)"
| "cut_elements e (Suc k) s =
     (case e (lstrip s) of
        (UnmatchedArgument, _) \<Rightarrow> None
      | (Matched v, s') \<Rightarrow>
          (case cut_elements e k s' of
             None \<Rightarrow> None
           | Some (vs, r) \<Rightarrow> Some (v # vs, r)))"

text \<open>\<^verbatim>\<open>List(Bool(), min_length=m, max_length=n).cut_part(arguments_string)\<close>\<close>

definition List_Bool_cut_part ::
  "int \<Rightarrow> int option \<Rightarrow> ustr \<Rightarrow> (bool list cut \<times> ustr) option" where
  "List_Bool_cut_part m n arguments_string =
     (case Bool_init [] [] of
        None \<Rightarrow> None
      | Some b \<Rightarrow>
          List_cut_part \<lparr>element = Bool_cut_part b, min_length = m, max_length = n\<rparr>
            arguments_string)"

text \<open>A command whose \<^verbatim>\<open>handle_event\<close> has the same outcome for every event.\<close>

definition always :: "'st outcome \<Rightarrow> 'ev \<Rightarrow> 'sb \<Rightarrow> 'st outcome" where
  "always out event box = out"

text \<open>
  Parts to build a bot for an example: a filter that lets every event pass, a debugger
  whose message is the statuses one after the other, a debugger that has no terminal,
  and a signal whose handlers return.
\<close>

definition filter_all :: "'ev \<Rightarrow> exn + bool" where
  "filter_all event = Inr True"

definition render_statuses :: "'ev \<Rightarrow> string list \<Rightarrow> exn + string" where
  "render_statuses event handling_info = Inr (concat handling_info)"

definition render_no_terminal :: "'ev \<Rightarrow> 'st list \<Rightarrow> exn + string" where
  "render_no_terminal event handling_info = Inl (Exception ''OSError'')"

definition signal_returns :: "'ev \<Rightarrow> 'st list \<Rightarrow> exn + unit" where
  "signal_returns event handling_info = Inr ()"

text \<open>An ASCII character.\<close>

definition is_ascii :: "cp \<Rightarrow> bool" where
  "is_ascii c = (c < 128)"

text \<open>
  The input starts with a fractional part: a dot and a digit. \<open>is_Exception\<close> tells
  the exceptions that \<^verbatim>\<open>except Exception\<close> catches.
\<close>

fun starts_fraction :: "ustr \<Rightarrow> bool" where
  "starts_fraction (c # d # _) = (c = 46 \<and> atom_ok Digit d)"
| "starts_fraction _ = False"

definition is_Exception :: "exn \<Rightarrow> bool" where
  "is_Exception e = (case e of Exception _ \<Rightarrow> True | BaseException _ \<Rightarrow> False)"

section \<open>Matching an alternation of literals\<close>

lemma ends_seq_of:
  "ends (seq_of a) s = (if ci_prefix a s then [drop (length a) s] else [])"
proof (induction a arbitrary: s)
  case Nil
  show ?case by (simp add: ci_prefix_def)
next
  case (Cons c a)
  show ?case
  proof (cases s)
    case Nil
    then show ?thesis by (simp add: ci_prefix_def)
  next
    case (Cons d t)
    then show ?thesis using Cons.IH [of t] by (auto simp: ci_prefix_def)
  qed
qed

lemma ends_alt_of:
  "rs \<noteq> [] \<Longrightarrow> ends (alt_of rs) s = concat (map (\<lambda>r. ends r s) rs)"
  by (induction rs rule: alt_of.induct) simp_all

lemma ends_literals:
  assumes "alts \<noteq> []"
  shows "ends (alt_of (map seq_of alts)) s =
           map (\<lambda>a. drop (length a) s) (filter (\<lambda>a. ci_prefix a s) alts)"
proof -
  have "concat (map (\<lambda>a. if ci_prefix a s then [drop (length a) s] else []) xs) =
          map (\<lambda>a. drop (length a) s) (filter (\<lambda>a. ci_prefix a s) xs)" for xs
    by (induction xs) simp_all
  with assms show ?thesis
    by (simp add: ends_alt_of ends_seq_of comp_def)
qed

lemma re_match_literals:
  assumes "alts \<noteq> []"
  shows "re_match (alt_of (map seq_of alts)) s =
           (case find (\<lambda>a. ci_prefix a s) alts of
              None \<Rightarrow> None
            | Some a \<Rightarrow> Some (take (length a) s, drop (length a) s))"
proof -
  have "(case map (\<lambda>a. drop (length a) s) (filter (\<lambda>a. ci_prefix a s) xs) of
           [] \<Rightarrow> None | rest # _ \<Rightarrow> Some (take (length s - length rest) s, rest)) =
        (case find (\<lambda>a. ci_prefix a s) xs of
              None \<Rightarrow> None
            | Some a \<Rightarrow> Some (take (length a) s, drop (length a) s))" for xs
    by (induction xs) (auto simp: ci_prefix_def)
  with assms show ?thesis
    by (simp add: re_match_def ends_literals)
qed

lemma parse_alts_nonempty: "parse_alts v = Some A \<Longrightarrow> A \<noteq> []"
  by (induction v arbitrary: A rule: parse_alts.induct)
     (auto split: if_splits list.splits elim!: cons_first.elims)

lemma cons_first_append: "A \<noteq> [] \<Longrightarrow> cons_first c (A @ B) = cons_first c A @ B"
  by (cases A) simp_all

lemma map_option_append:
  "map_option f (map_option ((@) A) x) = map_option (\<lambda>B. f (A @ B)) x"
  by (cases x) simp_all

lemma parse_alts_bar:
  "parse_alts v = Some A \<Longrightarrow> parse_alts (v @ 124 # w) = map_option ((@) A) (parse_alts w)"
proof (induction v arbitrary: A rule: parse_alts.induct)
  case 1
  then have "A = [[]]" by simp
  then show ?case by (cases "parse_alts w") simp_all
next
  case (2 c cs)
  show ?case
  proof (cases "c = 124")
    case True
    with 2 obtain A' where A': "parse_alts cs = Some A'" "A = [] # A'" by auto
    with 2 True show ?thesis by (simp add: map_option_append)
  next
    case bar: False
    show ?thesis
    proof (cases "c = 92")
      case True
      with 2 obtain d ds A' where d: "cs = d # ds" "\<not> ascii_alnum d"
        "parse_alts ds = Some A'" "A = cons_first d A'"
        by (auto split: list.splits if_splits)
      from d have "A' \<noteq> []" by (simp add: parse_alts_nonempty)
      with 2 True d show ?thesis
        by (simp add: map_option_append cons_first_append)
    next
      case False
      with 2 bar obtain A' where A': "\<not> List.member special_chars c"
        "parse_alts cs = Some A'" "A = cons_first c A'"
        by (auto split: if_splits)
      from A' have "A' \<noteq> []" by (simp add: parse_alts_nonempty)
      with 2 bar False A' show ?thesis
        by (simp add: map_option_append cons_first_append)
    qed
  qed
qed

lemma parse_alts_join:
  assumes "list_all in_fragment vs" and "vs \<noteq> []"
  shows "parse_alts (join [124] vs) = Some (alts_of vs)"
  using assms
proof (induction "[124::nat]" vs rule: join.induct)
  case 1
  then show ?case by simp
next
  case (2 x)
  then show ?case by (auto simp: in_fragment_def alts_of_def)
next
  case (3 x y ys)
  from 3 obtain A where A: "parse_alts x = Some A" by (auto simp: in_fragment_def)
  from 3 have "parse_alts (join [124] (y # ys)) = Some (alts_of (y # ys))" by simp
  with A show ?case by (simp add: parse_alts_bar alts_of_def)
qed

lemma re_compile_group:
  "re_compile_ignorecase (ascii ''(?:'' @ body @ ascii '')'') =
     map_option (\<lambda>alts. alt_of (map seq_of alts)) (parse_alts body)"
  by (simp add: re_compile_ignorecase_def ascii_def butlast_append)

lemma in_fragment_true_values: "list_all in_fragment true_values"
  by (simp add: true_values_def in_fragment_def ascii_def special_chars_def ascii_alnum_def)

lemma in_fragment_false_values: "list_all in_fragment false_values"
  by (simp add: false_values_def in_fragment_def ascii_def special_chars_def ascii_alnum_def)

lemma alts_of_true_values:
  "alts_of true_values =
     [ascii ''true'', ascii ''1'', ascii ''yes'', ascii ''y'',
      [1076, 1072], [1076], [1080, 1089, 1090, 1080, 1085, 1072],
      ascii ''+'',
      [1087, 1088, 1072, 1074, 1076, 1072],
      ascii ''t'', ascii ''on'', [1074, 1082, 1083], ascii ''enable'']"
  by (simp add: true_values_def alts_of_def ascii_def special_chars_def ascii_alnum_def)

lemma alts_of_false_values:
  "alts_of false_values = false_values"
  by (simp add: false_values_def alts_of_def ascii_def special_chars_def ascii_alnum_def)

lemma alts_of_append: "alts_of (vs @ ws) = alts_of vs @ alts_of ws"
  by (simp add: alts_of_def)

lemma Bool_init_fragment:
  assumes "list_all in_fragment true_extension" and "list_all in_fragment false_extension"
  shows "Bool_init true_extension false_extension =
           Some \<lparr>true_regex = alt_of (map seq_of (alts_of (true_values @ true_extension))),
                 false_regex = alt_of (map seq_of (alts_of (false_values @ false_extension)))\<rparr>"
proof -
  have t: "list_all in_fragment (true_values @ true_extension)"
    using assms in_fragment_true_values by simp
  have f: "list_all in_fragment (false_values @ false_extension)"
    using assms in_fragment_false_values by simp
  have nt: "true_values @ true_extension \<noteq> []" by (simp add: true_values_def)
  have nf: "false_values @ false_extension \<noteq> []" by (simp add: false_values_def)
  have bar: "ascii ''|'' = [124]" by (simp add: ascii_def)
  show ?thesis
    unfolding Bool_init_def re_compile_group bar
    by (simp add: parse_alts_join [OF t nt] parse_alts_join [OF f nf])
qed

lemma alts_of_nonempty: "list_all in_fragment vs \<Longrightarrow> vs \<noteq> [] \<Longrightarrow> alts_of vs \<noteq> []"
  using parse_alts_join parse_alts_nonempty by blast

lemma Bool_init_cut_part_first:
  assumes "list_all in_fragment true_extension" and "list_all in_fragment false_extension"
  shows "Bool_init_cut_part true_extension false_extension s =
           Some (case first_alt (alts_of (true_values @ true_extension)) s of
                   Some a \<Rightarrow> (Matched True, drop (length a) s)
                 | None \<Rightarrow>
                     (case first_alt (alts_of (false_values @ false_extension)) s of
                        Some a \<Rightarrow> (Matched False, drop (length a) s)
                      | None \<Rightarrow> (UnmatchedArgument, s)))"
proof -
  have t: "alts_of (true_values @ true_extension) \<noteq> []"
    using assms in_fragment_true_values by (intro alts_of_nonempty) (simp_all add: true_values_def)
  have f: "alts_of (false_values @ false_extension) \<noteq> []"
    using assms in_fragment_false_values by (intro alts_of_nonempty) (simp_all add: false_values_def)
  show ?thesis
    by (simp add: Bool_init_cut_part_def Bool_init_fragment [OF assms] Bool_cut_part_def
        cut_part_lite_def re_match_literals [OF t] re_match_literals [OF f] first_alt_def
        split: option.splits)
qed

section \<open>The loop of the list argument\<close>

lemma cut_elements_length: "cut_elements e k s = Some (vs, r) \<Longrightarrow> length vs = k"
  by (induction k arbitrary: s vs) (auto split: prod.splits cut.splits option.splits)

lemma List_loop_elements:
  assumes "cut_elements (element self) k s = Some (vs, r)"
    and "max_length self = None \<or> int (length acc + k) \<le> the (max_length self)"
  shows "List_loop self acc s = List_loop self (acc @ vs) r"
  using assms
proof (induction k arbitrary: acc s vs)
  case 0
  then show ?case by simp
next
  case (Suc k)
  from Suc.prems(1) obtain v s' vs' where
    step: "element self (lstrip s) = (Matched v, s')"
    and rest: "cut_elements (element self) k s' = Some (vs', r)"
    and vs: "vs = v # vs'"
    by (auto split: prod.splits cut.splits option.splits)
  from Suc.prems(2) have bound: "max_length self = None \<or> int (length (acc @ [v]) + k) \<le> the (max_length self)"
    by auto
  from Suc.prems(2) have enter: "max_length self = None \<or> int (length acc) < the (max_length self)"
    by auto
  have "List_loop self acc s = List_loop self (acc @ [v]) s'"
    using enter step by (subst List_loop.simps) auto
  also have "\<dots> = List_loop self ((acc @ [v]) @ vs') r"
    using Suc.IH [OF rest bound] .
  finally show ?case by (simp add: vs)
qed

lemma List_loop_stop:
  assumes "element self (lstrip r) = (UnmatchedArgument, r')"
    and "max_length self = None \<or> int (length acc) < the (max_length self)"
  shows "List_loop self acc r =
           Some (if int (length acc) > min_length self then Matched acc else UnmatchedArgument, r')"
  using assms by (subst List_loop.simps) auto

lemma List_loop_full:
  assumes "max_length self = Some n" and "n \<le> int (length acc)"
  shows "List_loop self acc r = Some (Matched acc, r)"
  using assms by (subst List_loop.simps) auto

lemma List_cut_part_early_stop:
  assumes "cut_elements e k s = Some (vs, r)"
    and "e (lstrip r) = (UnmatchedArgument, r')"
    and "n = None \<or> int k < the n"
  shows "List_cut_part \<lparr>element = e, min_length = m, max_length = n\<rparr> s =
           Some (if int k > m then Matched vs else UnmatchedArgument, r')"
proof -
  let ?L = "\<lparr>element = e, min_length = m, max_length = n\<rparr>"
  have len: "length vs = k" using assms(1) by (rule cut_elements_length)
  have "List_loop ?L [] s = List_loop ?L ([] @ vs) r"
    using assms(1,3) by (intro List_loop_elements [where k = k]) auto
  also have "\<dots> = Some (if int (length vs) > min_length ?L then Matched vs else UnmatchedArgument, r')"
    using assms(2,3) len by (subst List_loop_stop [where r' = r']) auto
  finally show ?thesis by (simp add: List_cut_part_def len)
qed

lemma List_cut_part_max:
  assumes "cut_elements e k s = Some (vs, r)"
    and "n = Some (int k)"
  shows "List_cut_part \<lparr>element = e, min_length = m, max_length = n\<rparr> s = Some (Matched vs, r)"
proof -
  let ?L = "\<lparr>element = e, min_length = m, max_length = n\<rparr>"
  have len: "length vs = k" using assms(1) by (rule cut_elements_length)
  have "List_loop ?L [] s = List_loop ?L ([] @ vs) r"
    using assms by (intro List_loop_elements [where k = k]) auto
  also have "\<dots> = Some (Matched vs, r)"
    using assms len by (simp add: List_loop_full [where n = "int k"])
  finally show ?thesis by (simp add: List_cut_part_def)
qed

section \<open>The numeric pattern and the pattern of the simplified argument\<close>

lemma fraction_digit: "atom_ok Digit c \<Longrightarrow> ends (Seq (Atom (Lit 46)) (Plus Digit)) (c # t) = []"
  by auto

lemma fraction_none:
  assumes "\<not> starts_fraction t" and "t = [] \<or> \<not> atom_ok Digit (hd t)"
  shows "ends (Seq (Atom (Lit 46)) (Plus Digit)) t = []"
proof (cases t)
  case Nil
  then show ?thesis by simp
next
  case (Cons c u)
  show ?thesis
  proof (cases u)
    case Nil
    with Cons show ?thesis by simp
  next
    case (Cons d v)
    with \<open>t = c # u\<close> assms(1) show ?thesis by auto
  qed
qed

lemma digits_run:
  assumes "list_all (atom_ok Digit) ds" and "rest = [] \<or> \<not> atom_ok Digit (hd rest)"
  shows "takeWhile (atom_ok Digit) (ds @ rest) = ds"
proof -
  have "takeWhile (atom_ok Digit) rest = []"
    using assms(2) by (cases rest) auto
  with assms(1) show ?thesis
    by (simp add: takeWhile_append2 list_all_iff del: atom_ok.simps)
qed

lemma fraction_after_digits:
  assumes "list_all (atom_ok Digit) ds" and "rest = [] \<or> \<not> atom_ok Digit (hd rest)"
    and "\<not> starts_fraction rest" and "k \<le> length ds"
  shows "ends (Seq (Atom (Lit 46)) (Plus Digit)) (drop k (ds @ rest)) = []"
proof (cases "k < length ds")
  case True
  then have d: "drop k (ds @ rest) = ds ! k # drop (Suc k) ds @ rest"
    by (simp add: Cons_nth_drop_Suc)
  from True assms(1) have "atom_ok Digit (ds ! k)"
    by (simp add: list_all_length del: atom_ok.simps)
  then show ?thesis unfolding d by (rule fraction_digit)
next
  case False
  with assms(4) have "drop k (ds @ rest) = rest" by simp
  with assms(2,3) show ?thesis by (simp add: fraction_none del: ends.simps)
qed

lemma concat_map_Nil: "(\<And>x. x \<in> set xs \<Longrightarrow> f x = []) \<Longrightarrow> concat (map f xs) = []"
  by (induction xs) simp_all

text \<open>
  C3. The claim: the numeric cutter matches an optional sign, a run of digits and an
  optional fractional part, so an input that begins with a plain run of digits is
  matched. In the pattern the group of the fractional part has no quantifier: an ASCII
  input that begins with a run of digits not followed by a dot and a digit is not
  matched at all.
\<close>

theorem Integer_cut_part_plain_digits:
  assumes "ds \<noteq> []" and "list_all (atom_ok Digit) ds"
    and "rest = [] \<or> \<not> atom_ok Digit (hd rest)" and "\<not> starts_fraction rest"
    and "list_all is_ascii rest"
  shows "Integer_cut_part (ds @ rest) = (UnmatchedArgument, ds @ rest)"
proof -
  let ?s = "ds @ rest"
  let ?frac = "Seq (Atom (Lit 46)) (Plus Digit)"
  obtain d ds' where ds: "ds = d # ds'" using assms(1) by (cases ds) auto
  with assms(2) have dig: "48 \<le> d \<and> d \<le> 57" by simp
  then have sign: "ends (Opt (Atom (Cls (ascii ''+|-'')))) ?s = [?s]"
    by (auto simp: ds ascii_def)
  have run: "takeWhile (atom_ok Digit) ?s = ds"
    using assms(2,3) by (rule digits_run)
  have "ends (Seq (Star Digit) ?frac) ?s =
          concat (map (\<lambda>k. ends ?frac (drop k ?s)) (rev [0..<Suc (length ds)]))"
    by (simp add: run comp_def del: upt_Suc)
  also have "\<dots> = []"
    using assms(2,3,4) by (intro concat_map_Nil fraction_after_digits) auto
  finally have "ends Integer_pattern ?s = []"
    unfolding Integer_pattern_def ends.simps(3) [of "Opt _"] sign by simp
  then show ?thesis
    by (simp add: Integer_cut_part_def cut_part_via_regex_def re_match_def)
qed

theorem Integer_cut_part_plain_digits_witness:
  "Integer_cut_part (ascii ''123'') = (UnmatchedArgument, ascii ''123'')"
  using Integer_cut_part_plain_digits [of "ascii ''123''" "[]"]
  by (simp add: ascii_def)

lemma takeWhile_AnyChar: "takeWhile (atom_ok AnyChar) s = s"
  by (induction s) simp_all

lemma SimplifiedTextArgument_cut_part_any_pattern:
  "SimplifiedTextArgument_cut_part (SimplifiedTextArgument_init P) s =
     (if s = [] then (UnmatchedArgument, []) else (Matched s, []))"
proof (cases s)
  case Nil
  then show ?thesis
    by (simp add: SimplifiedTextArgument_cut_part_def cut_part_lite_def re_match_def)
next
  case (Cons c t)
  have "ends (Plus AnyChar) s = map (\<lambda>k. drop k s) (rev [1..<Suc (length s)])"
    by (simp only: ends.simps takeWhile_AnyChar)
  also have "\<dots> = [] # map (\<lambda>k. drop k s) (rev [1..<length s])"
    using Cons by simp
  finally show ?thesis using Cons
    by (simp add: SimplifiedTextArgument_cut_part_def cut_part_lite_def re_match_def)
qed

section \<open>Gathering the tasks\<close>

lemma those_map_Some: "those (map Some xs) = Some xs"
  by (induction xs) simp_all

lemma gather_returned:
  assumes "\<forall>i\<in>set cs. i < length sts"
  shows "gather (map Returned sts) results cs =
           gather (map Returned sts) (fold (\<lambda>i r. r[i := Some (sts ! i)]) cs results) []"
  using assms by (induction cs arbitrary: results) simp_all

lemma fold_slots_length:
  "length (fold (\<lambda>i r. r[i := Some (sts ! i)]) cs results) = length results"
  by (induction cs arbitrary: results) simp_all

lemma fold_slots_nth:
  assumes "j < length results"
  shows "fold (\<lambda>i r. r[i := Some (sts ! i)]) cs results ! j =
           (if j \<in> set cs then Some (sts ! j) else results ! j)"
  using assms
proof (induction cs arbitrary: results)
  case Nil
  then show ?case by simp
next
  case (Cons c cs)
  then show ?case by (cases "j = c") (auto simp: nth_list_update)
qed

lemma fold_slots_all:
  assumes "set cs = {..<length sts}"
  shows "fold (\<lambda>i r. r[i := Some (sts ! i)]) cs (replicate (length sts) None) = map Some sts"
  using assms by (intro nth_equalityI) (simp_all add: fold_slots_length fold_slots_nth)

lemma gather_all_returned:
  assumes "set cs = {..<length sts}"
  shows "gather (map Returned sts) (replicate (length sts) None) cs = Done sts"
proof -
  have "\<forall>i\<in>set cs. i < length sts" using assms by auto
  then show ?thesis
    by (simp add: gather_returned fold_slots_all [OF assms] those_map_Some)
qed

lemma gather_raised:
  assumes "\<exists>i\<in>set cs. i < length tasks \<and> (\<exists>e. tasks ! i = Raised e)"
  shows "\<exists>e. gather tasks results cs = Failed e \<and> Raised e \<in> set tasks"
  using assms
proof (induction cs arbitrary: results)
  case Nil
  then show ?case by simp
next
  case (Cons c cs)
  show ?case
  proof (cases "c < length tasks")
    case False
    with Cons.prems have "\<exists>i\<in>set cs. i < length tasks \<and> (\<exists>e. tasks ! i = Raised e)" by auto
    from Cons.IH [OF this] False show ?thesis by simp
  next
    case True
    show ?thesis
    proof (cases "tasks ! c")
      case (Raised e)
      with True show ?thesis by (auto simp: in_set_conv_nth)
    next
      case (Returned v)
      with Cons.prems have "\<exists>i\<in>set cs. i < length tasks \<and> (\<exists>e. tasks ! i = Raised e)" by auto
      from Cons.IH [OF this] True Returned show ?thesis by simp
    qed
  qed
qed

section \<open>Evaluating the cutters on given inputs\<close>

lemmas bool_eval = Bool_init_def re_compile_ignorecase_def true_values_def false_values_def
  Bool_cut_part_def cut_part_lite_def re_match_def ascii_def special_chars_def ascii_alnum_def
  py_lower_def lstrip_def isspace_def

lemmas alts_eval = in_fragment_def alts_of_def first_alt_def ci_prefix_def
  true_values_def false_values_def ascii_def special_chars_def ascii_alnum_def py_lower_def

section \<open>The list argument: the lower bound\<close>

text \<open>
  C1. The claim: an input with exactly \<open>k\<close> well-formed elements,
  \<open>min_length \<le> k \<le> max_length\<close>, followed by text that the element does not
  match, is matched with the \<open>k\<close> values; in particular a stop after exactly
  \<open>min_length\<close> elements is accepted. The code compares with
  \<^verbatim>\<open>len(values) > self.min_length\<close>, although the field is commented
  \<^verbatim>\<open># >=\<close> and the usage description prints \<^verbatim>\<open>>=\<close>: when the input holds
  exactly \<open>min_length\<close> elements and the upper bound is not reached, the result is
  \<^verbatim>\<open>UnmatchedArgument\<close>.
\<close>

theorem List_cut_part_at_min_length:
  assumes "cut_elements e k s = Some (vs, r)"
    and "e (lstrip r) = (UnmatchedArgument, r')"
    and "m = int k"
    and "n = None \<or> int k < the n"
  shows "List_cut_part \<lparr>element = e, min_length = m, max_length = n\<rparr> s =
           Some (UnmatchedArgument, r')"
  using List_cut_part_early_stop [OF assms(1,2,4), of m] assms(3) by simp

theorem List_cut_part_at_min_length_witness:
  "List_Bool_cut_part 1 (Some 5) (ascii ''yes zzz'') = Some (UnmatchedArgument, ascii ''zzz'')"
proof -
  obtain b where b: "Bool_init [] [] = Some b"
    by (simp add: Bool_init_fragment)
  have b': "b = the (Bool_init [] [])" using b by simp
  have one: "cut_elements (Bool_cut_part b) 1 (ascii ''yes zzz'') = Some ([True], ascii '' zzz'')"
    unfolding b' by (simp add: bool_eval)
  have stop: "Bool_cut_part b (lstrip (ascii '' zzz'')) = (UnmatchedArgument, ascii ''zzz'')"
    unfolding b' by (simp add: bool_eval)
  have "List_cut_part \<lparr>element = Bool_cut_part b, min_length = 1, max_length = Some 5\<rparr>
          (ascii ''yes zzz'') = Some (UnmatchedArgument, ascii ''zzz'')"
    using List_cut_part_at_min_length [OF one stop, of 1 "Some 5"] by simp
  then show ?thesis by (simp add: List_Bool_cut_part_def b)
qed

text \<open>
  C2. The claim: with fewer than \<open>min_length\<close> well-formed elements the result is
  unmatched and the returned string is the original input. As amended: for bounds with
  \<open>min_length \<le> max_length\<close> (or no upper bound) the result is unmatched, and the
  returned string is the one that the failing attempt of the element returned: for an
  element that returns its input when it does not match, this is the input after the
  elements that were cut, with the leading whitespace stripped.
\<close>

theorem List_cut_part_below_min_length:
  assumes "cut_elements e k s = Some (vs, r)"
    and "e (lstrip r) = (UnmatchedArgument, r')"
    and "int k < m"
    and "n = None \<or> m \<le> the n"
  shows "List_cut_part \<lparr>element = e, min_length = m, max_length = n\<rparr> s =
           Some (UnmatchedArgument, r')"
proof -
  from assms(3,4) have "n = None \<or> int k < the n" by auto
  from List_cut_part_early_stop [OF assms(1,2) this, of m] assms(3) show ?thesis by simp
qed

theorem List_cut_part_below_min_length_witness:
  "List_Bool_cut_part 3 None (ascii ''on  off'') = Some (UnmatchedArgument, [])"
proof -
  obtain b where b: "Bool_init [] [] = Some b"
    by (simp add: Bool_init_fragment)
  have b': "b = the (Bool_init [] [])" using b by simp
  have two: "cut_elements (Bool_cut_part b) 2 (ascii ''on  off'') = Some ([True, False], [])"
    unfolding b' by (simp add: bool_eval numeral_2_eq_2)
  have stop: "Bool_cut_part b (lstrip []) = (UnmatchedArgument, [])"
    unfolding b' by (simp add: bool_eval)
  have "List_cut_part \<lparr>element = Bool_cut_part b, min_length = 3, max_length = None\<rparr>
          (ascii ''on  off'') = Some (UnmatchedArgument, [])"
    using List_cut_part_below_min_length [OF two stop, of 3 None] by simp
  then show ?thesis by (simp add: List_Bool_cut_part_def b)
qed

theorem List_cut_part_remainder_counterexample:
  "List_Bool_cut_part 3 None (ascii ''  yes no zzz'') = Some (UnmatchedArgument, ascii ''zzz'') \<and>
   List_Bool_cut_part 3 None (ascii ''  yes no zzz'') \<noteq> Some (UnmatchedArgument, ascii ''  yes no zzz'')"
proof -
  have "List_Bool_cut_part 3 None (ascii ''  yes no zzz'') = Some (UnmatchedArgument, ascii ''zzz'')"
    unfolding List_Bool_cut_part_def List_cut_part_def
    apply (simp add: bool_eval)
    apply (subst List_loop.simps, simp add: bool_eval)+
    done
  then show ?thesis by (simp add: ascii_def)
qed

section \<open>The simplified argument\<close>

text \<open>
  C4. The claim: a quick-build matcher made from a pattern \<open>P\<close> matches with \<open>P\<close>,
  so an input that \<open>P\<close> does not match is unmatched. The constructor drops
  \<^verbatim>\<open>re_pattern\<close> and \<^verbatim>\<open>cut_part\<close> matches with the fixed pattern
  \<^verbatim>\<open>.+\<close>: built from \<^verbatim>\<open>\d+\<close>, the argument still takes all of
  \<^verbatim>\<open>abc\<close>, which \<^verbatim>\<open>\d+\<close> does not match.
\<close>

theorem SimplifiedTextArgument_ignores_pattern:
  "re_match (Plus Digit) (ascii ''abc'') = None \<and>
   SimplifiedTextArgument_cut_part (SimplifiedTextArgument_init (Plus Digit)) (ascii ''abc'') =
     (Matched (ascii ''abc''), [])"
  by (simp add: SimplifiedTextArgument_cut_part_any_pattern re_match_def ascii_def)

section \<open>The numeric cutter on the text of a number\<close>







section \<open>The batch of one event\<close>

text \<open>
  C5. The claim: for every event and every list of commands, the batch produces one
  status per command, in the order of the commands, whatever the order of completion.
  As amended: when no \<^verbatim>\<open>handle_event\<close> raises, then for every order in which
  the tasks complete \<^verbatim>\<open>gather\<close> gives one status per command in the order of
  \<^verbatim>\<open>self.commands\<close>; this list is handed to \<^verbatim>\<open>show_debug_info\<close> (unless
  the release flag is set) and, if that does not raise, to the signal.
\<close>

theorem dispatch_order:
  assumes "map (\<lambda>command. command event (shared_box self)) (commands self) = map Returned statuses"
    and "set completions = {..<length (commands self)}"
  shows "gather (map (\<lambda>command. command event (shared_box self)) (commands self))
           (replicate (length (commands self)) None) completions = Done statuses
       \<and> pass_event_trough_commands self event completions =
           (case (if release self then Inr [] else show_debug_info self event statuses) of
              Inl e \<Rightarrow> Some (Inl e)
            | Inr shown \<Rightarrow>
                (case call_post_event_handling_signal self event statuses of
                   Inl e \<Rightarrow> Some (Inl e)
                 | Inr signalled \<Rightarrow> Some (Inr (shown @ signalled))))"
proof -
  have len: "length statuses = length (commands self)"
    using assms(1) by (metis length_map)
  with assms(2) have "set completions = {..<length statuses}" by simp
  then have g: "gather (map Returned statuses) (replicate (length statuses) None) completions =
                  Done statuses"
    by (rule gather_all_returned)
  then show ?thesis
    by (simp add: pass_event_trough_commands_def assms(1) len Let_def)
qed

theorem dispatch_order_witness:
  "pass_event_trough_commands
     \<lparr>commands = [always (Returned ''A''), always (Returned ''B''), always (Returned ''C'')],
      shared_box = (), release = False, debug_filter = filter_all,
      debugger = render_statuses, call_signal = signal_returns\<rparr>
     ''event'' [2, 0, 1] =
   Some (Inr [ShowDebugMessage ''event'' ''ABC'',
              PostEventHandlingSignal ''event'' [''A'', ''B'', ''C'']]) \<and>
   pass_event_trough_commands
     \<lparr>commands = [always (Returned ''A''), always (Returned ''B''), always (Returned ''C'')],
      shared_box = (), release = False, debug_filter = filter_all,
      debugger = render_no_terminal, call_signal = signal_returns\<rparr>
     ''event'' [2, 0, 1] = Some (Inl (Exception ''OSError''))"
proof -
  let ?cs = "[always (Returned ''A''), always (Returned ''B''), always (Returned ''C'')]"
  let ?bot = "\<lparr>commands = ?cs, shared_box = (), release = False, debug_filter = filter_all,
      debugger = render_statuses, call_signal = signal_returns\<rparr>"
  let ?bot' = "\<lparr>commands = ?cs, shared_box = (), release = False, debug_filter = filter_all,
      debugger = render_no_terminal, call_signal = signal_returns\<rparr>"
  have m: "map (\<lambda>command. command ''event'' (shared_box ?bot)) (commands ?bot) =
             map Returned [''A'', ''B'', ''C'']"
    and m': "map (\<lambda>command. command ''event'' (shared_box ?bot')) (commands ?bot') =
             map Returned [''A'', ''B'', ''C'']"
    by (simp_all add: always_def)
  have c: "set [2, 0, 1] = {..<length (commands ?bot)}"
    and c': "set [2, 0, 1] = {..<length (commands ?bot')}"
    by (auto simp: lessThan_def)
  have "pass_event_trough_commands ?bot ''event'' [2, 0, 1] =
          Some (Inr [ShowDebugMessage ''event'' ''ABC'',
                     PostEventHandlingSignal ''event'' [''A'', ''B'', ''C'']])"
    using dispatch_order [OF m c]
    by (simp add: show_debug_info_def call_post_event_handling_signal_def filter_all_def
        render_statuses_def signal_returns_def)
  moreover have "pass_event_trough_commands ?bot' ''event'' [2, 0, 1] =
          Some (Inl (Exception ''OSError''))"
    using dispatch_order [OF m' c']
    by (simp add: show_debug_info_def call_post_event_handling_signal_def filter_all_def
        render_no_terminal_def signal_returns_def)
  ultimately show ?thesis by simp
qed

theorem dispatch_order_counterexample:
  "pass_event_trough_commands
     \<lparr>commands = [always (Raised (Exception ''A failed'')), always (Returned ''B'')],
      shared_box = (), release = False, debug_filter = filter_all,
      debugger = render_statuses, call_signal = signal_returns\<rparr>
     ''event'' [1, 0] = Some (Inr [PrintExc (Exception ''A failed'')])"
  by (simp add: pass_event_trough_commands_def always_def)

text \<open>
  C6. The claim: when a unit raises, the batch does not crash, the failure is shown,
  and the statuses of the other commands are still delivered. As amended: when a unit
  raises and what the units raise are instances of \<^verbatim>\<open>Exception\<close>, the coroutine
  ends normally; it prints the traceback of the exception that \<^verbatim>\<open>gather\<close> raised
  and does nothing else: no status of the batch is handed to
  \<^verbatim>\<open>show_debug_info\<close> or to the signal.
\<close>

theorem dispatch_exception:
  assumes "tasks = map (\<lambda>command. command event (shared_box self)) (commands self)"
    and "set completions = {..<length (commands self)}"
    and "\<exists>e. Raised e \<in> set tasks"
    and "\<forall>e. Raised e \<in> set tasks \<longrightarrow> is_Exception e"
  shows "\<exists>e. Raised e \<in> set tasks \<and>
           pass_event_trough_commands self event completions = Some (Inr [PrintExc e])"
proof -
  from assms(3) obtain e i where "i < length tasks" "tasks ! i = Raised e"
    by (auto simp: in_set_conv_nth)
  with assms(1,2) have "\<exists>i\<in>set completions. i < length tasks \<and> (\<exists>e. tasks ! i = Raised e)"
    by auto
  from gather_raised [OF this] obtain e' where
    e': "gather tasks (replicate (length tasks) None) completions = Failed e'" "Raised e' \<in> set tasks"
    by blast
  with assms(4) have "is_Exception e'" by blast
  with e' show ?thesis
    unfolding pass_event_trough_commands_def Let_def assms(1) [symmetric]
    by (auto simp: is_Exception_def split: exn.splits)
qed

theorem dispatch_exception_witness:
  "pass_event_trough_commands
     \<lparr>commands = [always (Raised (Exception ''fail'')), always (Returned ''B'')],
      shared_box = (), release = True, debug_filter = filter_all,
      debugger = render_statuses, call_signal = signal_returns\<rparr>
     ''event'' [1, 0] = Some (Inr [PrintExc (Exception ''fail'')])"
proof -
  let ?bot = "\<lparr>commands = [always (Raised (Exception ''fail'')), always (Returned ''B'')],
      shared_box = (), release = True, debug_filter = filter_all,
      debugger = render_statuses, call_signal = signal_returns\<rparr>"
  let ?tasks = "[Raised (Exception ''fail''), Returned ''B'']"
  have m: "?tasks = map (\<lambda>command. command ''event'' (shared_box ?bot)) (commands ?bot)"
    by (simp add: always_def)
  have c: "set [1, 0] = {..<length (commands ?bot)}"
    by (auto simp: lessThan_def)
  have r: "\<exists>e. Raised e \<in> set ?tasks" by simp
  have x: "\<forall>e. Raised e \<in> set ?tasks \<longrightarrow> is_Exception e" by (simp add: is_Exception_def)
  from dispatch_exception [OF m c r x] show ?thesis by simp
qed

theorem dispatch_exception_counterexample:
  "pass_event_trough_commands
     \<lparr>commands = [always (Returned ''A''), always (Raised (Exception ''boom'')),
                  always (Returned ''C'')],
      shared_box = (), release = False, debug_filter = filter_all,
      debugger = render_statuses, call_signal = signal_returns\<rparr>
     ''event'' [0, 2, 1] = Some (Inr [PrintExc (Exception ''boom'')])"
  by (simp add: pass_event_trough_commands_def always_def)

section \<open>The boolean argument\<close>

text \<open>
  C7. The claim: \<^verbatim>\<open>cut_part\<close> consumes the longest alias that matches at the start
  of the input. The pattern is an alternation, which takes the first branch that
  matches. The false list of the code has the eight-letter alias U+043D U+0435 U+043F
  U+0440 U+0430 U+0432 U+0434 U+0430 after its own first letter U+043D, so on this
  alias the argument consumes one letter and leaves seven; and an alias added by
  \<^verbatim>\<open>true_extension\<close> stands after the aliases of the code, so of
  \<^verbatim>\<open>yeah\<close> only \<^verbatim>\<open>y\<close> is consumed.
\<close>

theorem Bool_cut_part_not_longest:
  "spec_longest_alt (alts_of false_values) [1085, 1077, 1087, 1088, 1072, 1074, 1076, 1072] =
     Some [1085, 1077, 1087, 1088, 1072, 1074, 1076, 1072] \<and>
   Bool_init_cut_part [] [] [1085, 1077, 1087, 1088, 1072, 1074, 1076, 1072] =
     Some (Matched False, [1077, 1087, 1088, 1072, 1074, 1076, 1072]) \<and>
   spec_longest_alt (alts_of (true_values @ [ascii ''yeah''])) (ascii ''yeah'') =
     Some (ascii ''yeah'') \<and>
   Bool_init_cut_part [ascii ''yeah''] [] (ascii ''yeah'') = Some (Matched True, ascii ''eah'')"
proof -
  have n: "list_all in_fragment []" by simp
  have y: "list_all in_fragment [ascii ''yeah'']" by (simp add: alts_eval)
  have "spec_longest_alt (alts_of false_values) [1085, 1077, 1087, 1088, 1072, 1074, 1076, 1072] =
          Some [1085, 1077, 1087, 1088, 1072, 1074, 1076, 1072]"
    by (simp add: spec_longest_alt_def alts_eval)
  moreover
  have "Bool_init_cut_part [] [] [1085, 1077, 1087, 1088, 1072, 1074, 1076, 1072] =
          Some (Matched False, [1077, 1087, 1088, 1072, 1074, 1076, 1072])"
    unfolding Bool_init_cut_part_first [OF n n] by (simp add: alts_eval)
  moreover
  have "spec_longest_alt (alts_of (true_values @ [ascii ''yeah''])) (ascii ''yeah'') =
          Some (ascii ''yeah'')"
    by (simp add: spec_longest_alt_def alts_eval)
  moreover
  have "Bool_init_cut_part [ascii ''yeah''] [] (ascii ''yeah'') = Some (Matched True, ascii ''eah'')"
    unfolding Bool_init_cut_part_first [OF y n] by (simp add: alts_eval)
  ultimately show ?thesis by simp
qed

text \<open>
  C8. The claim: on an alias of \<^verbatim>\<open>true_extension\<close> alone the result is true with
  an empty rest, and likewise false for \<^verbatim>\<open>false_extension\<close>. With
  \<^verbatim>\<open>yikes\<close> as an additional alias of false, the result on \<^verbatim>\<open>yikes\<close> is
  true, with \<^verbatim>\<open>ikes\<close> left; with \<^verbatim>\<open>yep\<close> as an additional alias of true,
  \<^verbatim>\<open>ep\<close> is left.
\<close>

theorem Bool_extension_alias_not_cut:
  "Bool_init_cut_part [] [ascii ''yikes''] (ascii ''yikes'') = Some (Matched True, ascii ''ikes'') \<and>
   Bool_init_cut_part [ascii ''yep''] [] (ascii ''yep'') = Some (Matched True, ascii ''ep'')"
proof -
  have n: "list_all in_fragment []" by simp
  have f: "list_all in_fragment [ascii ''yikes'']" by (simp add: alts_eval)
  have t: "list_all in_fragment [ascii ''yep'']" by (simp add: alts_eval)
  have "Bool_init_cut_part [] [ascii ''yikes''] (ascii ''yikes'') =
          Some (Matched True, ascii ''ikes'')"
    unfolding Bool_init_cut_part_first [OF n f] by (simp add: alts_eval)
  moreover
  have "Bool_init_cut_part [ascii ''yep''] [] (ascii ''yep'') = Some (Matched True, ascii ''ep'')"
    unfolding Bool_init_cut_part_first [OF t n] by (simp add: alts_eval)
  ultimately show ?thesis by simp
qed

text \<open>
  C10. When the true pattern matches at the start of the input, the result is true with
  the rest left by that match, whatever the false pattern does; the false pattern
  decides only when the true pattern does not match; and construction succeeds whether
  or not the two extended lists overlap.
\<close>

theorem Bool_cut_part_true_first:
  "(re_match (true_regex self) s = Some (m, r) \<longrightarrow> Bool_cut_part self s = (Matched True, r))
   \<and> (re_match (true_regex self) s = None
      \<longrightarrow> Bool_cut_part self s =
            (case re_match (false_regex self) s of
               Some (m', r') \<Rightarrow> (Matched False, r')
             | None \<Rightarrow> (UnmatchedArgument, s)))
   \<and> (list_all in_fragment true_extension \<and> list_all in_fragment false_extension
      \<longrightarrow> Bool_init true_extension false_extension \<noteq> None)"
  by (auto simp: Bool_cut_part_def cut_part_lite_def Bool_init_fragment split: option.splits)

theorem Bool_cut_part_true_first_witness:
  "(case Bool_init [ascii ''ok''] [ascii ''ok''] of
      None \<Rightarrow> False
    | Some b \<Rightarrow>
        re_match (true_regex b) (ascii ''OK now'') = Some (ascii ''OK'', ascii '' now'') \<and>
        re_match (false_regex b) (ascii ''OK now'') = Some (ascii ''OK'', ascii '' now'') \<and>
        Bool_cut_part b (ascii ''OK now'') = (Matched True, ascii '' now'') \<and>
        re_match (true_regex b) (ascii ''no'') = None \<and>
        Bool_cut_part b (ascii ''no'') = (Matched False, []))"
proof -
  obtain b where b: "Bool_init [ascii ''ok''] [ascii ''ok''] = Some b"
    by (simp add: Bool_init_fragment alts_eval)
  have b': "b = the (Bool_init [ascii ''ok''] [ascii ''ok''])" using b by simp
  have t: "re_match (true_regex b) (ascii ''OK now'') = Some (ascii ''OK'', ascii '' now'')"
    unfolding b' by (simp add: bool_eval)
  have f: "re_match (false_regex b) (ascii ''OK now'') = Some (ascii ''OK'', ascii '' now'')"
    unfolding b' by (simp add: bool_eval)
  have t2: "re_match (true_regex b) (ascii ''no'') = None"
    unfolding b' by (simp add: bool_eval)
  have f2: "re_match (false_regex b) (ascii ''no'') = Some (ascii ''no'', [])"
    unfolding b' by (simp add: bool_eval)
  have "Bool_cut_part b (ascii ''OK now'') = (Matched True, ascii '' now'')"
    using Bool_cut_part_true_first [of b "ascii ''OK now''" "ascii ''OK''" "ascii '' now''"] t
    by simp
  moreover have "Bool_cut_part b (ascii ''no'') = (Matched False, [])"
    using Bool_cut_part_true_first [of b "ascii ''no''"] t2 f2
    by simp
  ultimately show ?thesis using t f t2 by (simp add: b)
qed

end
